theory Spec2Isabelle
  imports Main
begin

section \<open>The scope-expression engine\<close>

text \<open>
  The engine compiles a textual boolean expression over scope tags into a function
  that filters a list of field names.  Strings of the source are modelled as
  \<^typ>\<open>string\<close> (code units 0..255), arrays as lists whose last element is the
  most recently pushed one (\<open>push x\<close> is \<open>xs @ [x]\<close>, \<open>pop\<close> is \<^const>\<open>butlast\<close>,
  and popping an empty array changes nothing), and a thrown exception as the
  left injection of a sum.
\<close>

subsection \<open>Errors, scope information and compiled expressions\<close>

text \<open>
  \<open>ParseError\<close> is the class the engine declares and throws itself.  \<open>TypeError\<close>
  is what the runtime throws when a method is called on \<open>undefined\<close>.
\<close>

datatype error = ParseError | TypeError

text \<open>
  \<open>ScopeInfo\<close> is a plain object used as a dictionary from field name to the
  list of scope tags.  Reading a key that was never assigned yields \<open>undefined\<close>
  or a member inherited from \<open>Object.prototype\<close>, in either case nothing that has
  an \<open>includes\<close> method; both are the \<open>None\<close> of the map.
\<close>

type_synonym ScopeInfo = "string \<rightharpoonup> string list"

text \<open>
  A \<open>ScopeExpr\<close> of the source is a closure.  The five closures the module can
  build are \<open>scopeWildcard\<close> and the results of \<open>scopeLiteral\<close>, \<open>scopeNegate\<close>,
  \<open>scopeJoin\<close> and \<open>scopeIntersect\<close>; each is represented by the constructor of the
  same name holding the captured variables, and calling the closure is
  \<open>evaluate\<close> below.
\<close>

datatype ScopeExpr =
    ScopeWildcard
  | ScopeLiteral string
  | ScopeNegate ScopeExpr
  | ScopeJoin ScopeExpr ScopeExpr
  | ScopeIntersect ScopeExpr ScopeExpr

subsection \<open>tokenize\<close>

text \<open>
  \<open>expr.split(/([()|&!])/)\<close>: the string is cut at every one of the five
  separator characters, and because of the capture group each separator is kept
  as a piece of its own.  \<open>cur\<close> is the piece being read.
\<close>

definition is_separator :: "char \<Rightarrow> bool" where
  "is_separator c \<longleftrightarrow> c \<in> set ''()|&!''"

fun split_separators :: "string \<Rightarrow> string \<Rightarrow> string list" where
  "split_separators cur [] = [cur]"
| "split_separators cur (c # cs) =
     (if is_separator c then cur # [c] # split_separators [] cs
      else split_separators (cur @ [c]) cs)"

text \<open>
  \<open>x.trim()\<close> removes white space and line terminators from both ends; among the
  code units below 256 these are 9 to 13, 32 and 160.
\<close>

definition is_white_space :: "char \<Rightarrow> bool" where
  "is_white_space c \<longleftrightarrow> (of_char c :: nat) \<in> {9, 10, 11, 12, 13, 32, 160}"

definition trim :: "string \<Rightarrow> string" where
  "trim x = rev (dropWhile is_white_space (rev (dropWhile is_white_space x)))"

text \<open>\<open>.filter(x => x)\<close> keeps the non-empty strings.\<close>

definition tokenize :: "string \<Rightarrow> string list" where
  "tokenize expr = filter (\<lambda>x. x \<noteq> []) (map trim (split_separators [] expr))"

subsection \<open>applyPrecedence\<close>

text \<open>
  \<open>opPrecedence\<close> has a case for each of the three operators and returns nothing
  (\<open>undefined\<close>) for any other string; a comparison \<open>a < b\<close> with \<open>undefined\<close> on
  either side is false.
\<close>

definition opPrecedence :: "string \<Rightarrow> nat option" where
  "opPrecedence op =
     (if op = ''|'' then Some 1
      else if op = ''&'' then Some 2
      else if op = ''!'' then Some 3
      else None)"

definition less_number :: "nat option \<Rightarrow> nat option \<Rightarrow> bool" where
  "less_number a b = (case a of None \<Rightarrow> False
                      | Some x \<Rightarrow> (case b of None \<Rightarrow> False | Some y \<Rightarrow> x < y))"

text \<open>
  The inner \<open>while\<close> loop of the operator case: operators are moved from the top
  of \<open>opStack\<close> to \<open>outputStack\<close> until the stack is empty, its top is \<open>(\<close>, or its
  top has a lower precedence than the current operator.
\<close>

function pop_operators ::
    "nat option \<Rightarrow> string list \<times> string list \<Rightarrow> string list \<times> string list" where
  "pop_operators precedence (opStack, outputStack) =
     (if opStack = [] then (opStack, outputStack)
      else if last opStack = ''('' then (opStack, outputStack)
      else if less_number (opPrecedence (last opStack)) precedence
        then (opStack, outputStack)
      else pop_operators precedence (butlast opStack, outputStack @ [last opStack]))"
  by pat_completeness auto
termination
  by (relation "measure (\<lambda>(p, ops, out). length ops)") auto

declare pop_operators.simps [simp del]

text \<open>The \<open>while\<close> loop of the \<open>)\<close> case.\<close>

function pop_to_paren :: "string list \<times> string list \<Rightarrow> string list \<times> string list" where
  "pop_to_paren (opStack, outputStack) =
     (if opStack \<noteq> [] \<and> last opStack \<noteq> ''(''
      then pop_to_paren (butlast opStack, outputStack @ [last opStack])
      else (opStack, outputStack))"
  by pat_completeness auto
termination
  by (relation "measure (\<lambda>(ops, out). length ops)") auto

declare pop_to_paren.simps [simp del]

text \<open>One iteration of the \<open>for\<close> loop over the tokens.\<close>

definition precedence_step ::
    "string list \<times> string list \<Rightarrow> string \<Rightarrow> string list \<times> string list" where
  "precedence_step st current =
     (if current = ''|'' \<or> current = ''&'' \<or> current = ''!'' then
        (case pop_operators (opPrecedence current) st of
           (opStack, outputStack) \<Rightarrow> (opStack @ [current], outputStack))
      else if current = ''('' then
        (case st of (opStack, outputStack) \<Rightarrow> (opStack @ [''(''], outputStack))
      else if current = '')'' then
        (case pop_to_paren st of
           (opStack, outputStack) \<Rightarrow> (butlast opStack, outputStack))
      else
        (case st of (opStack, outputStack) \<Rightarrow> (opStack, outputStack @ [current])))"

definition precedence_loop :: "string list \<Rightarrow> string list \<times> string list" where
  "precedence_loop tokens = foldl precedence_step ([], []) tokens"

text \<open>
  After the loop: a \<open>(\<close> anywhere on \<open>opStack\<close> throws, otherwise
  \<open>outputStack.push(...opStack)\<close> appends the whole operator stack, first pushed
  first.
\<close>

definition applyPrecedence :: "string list \<Rightarrow> error + string list" where
  "applyPrecedence tokens =
     (case precedence_loop tokens of
        (opStack, outputStack) \<Rightarrow>
          if ''('' \<in> set opStack then Inl ParseError
          else Inr (outputStack @ opStack))"

subsection \<open>prepareExpr\<close>

text \<open>
  One iteration of the loop over the postfix steps.  For a binary operator the
  first value popped is \<open>left\<close> and the second is \<open>right\<close>.
\<close>

definition prepare_step :: "ScopeExpr list \<Rightarrow> string \<Rightarrow> error + ScopeExpr list" where
  "prepare_step stack s =
     (if s = ''|'' then
        (if length stack < 2 then Inl ParseError
         else Inr (butlast (butlast stack)
                   @ [ScopeJoin (last stack) (last (butlast stack))]))
      else if s = ''&'' then
        (if length stack < 2 then Inl ParseError
         else Inr (butlast (butlast stack)
                   @ [ScopeIntersect (last stack) (last (butlast stack))]))
      else if s = ''!'' then
        (if length stack < 1 then Inl ParseError
         else Inr (butlast stack @ [ScopeNegate (last stack)]))
      else if s = ''*'' then Inr (stack @ [ScopeWildcard])
      else Inr (stack @ [ScopeLiteral s]))"

fun prepare_loop :: "ScopeExpr list \<Rightarrow> string list \<Rightarrow> error + ScopeExpr list" where
  "prepare_loop stack [] = Inr stack"
| "prepare_loop stack (s # steps) =
     (case prepare_step stack s of
        Inl e \<Rightarrow> Inl e
      | Inr stack' \<Rightarrow> prepare_loop stack' steps)"

text \<open>
  \<open>return stack.pop()\<close>: the top of the stack, or \<open>undefined\<close> (here \<open>None\<close>) when
  the stack is empty.
\<close>

definition prepareExpr :: "string list \<Rightarrow> error + ScopeExpr option" where
  "prepareExpr steps =
     (case prepare_loop [] steps of
        Inl e \<Rightarrow> Inl e
      | Inr stack \<Rightarrow> Inr (if stack = [] then None else Some (last stack)))"

subsection \<open>parse\<close>

definition parse :: "string \<Rightarrow> error + ScopeExpr option" where
  "parse expr =
     (case applyPrecedence (tokenize expr) of
        Inl e \<Rightarrow> Inl e
      | Inr steps \<Rightarrow> prepareExpr steps)"

subsection \<open>Calling a compiled expression\<close>

text \<open>
  \<open>fields.filter(f => info[f].includes(scope))\<close>: the fields are visited in order;
  for a key that is not in the object \<open>info[f]\<close> has no \<open>includes\<close>, and calling
  it throws.
\<close>

fun literal_filter :: "ScopeInfo \<Rightarrow> string \<Rightarrow> string list \<Rightarrow> error + string list" where
  "literal_filter info scope [] = Inr []"
| "literal_filter info scope (f # fields) =
     (case info f of
        None \<Rightarrow> Inl TypeError
      | Some scopes \<Rightarrow>
          (case literal_filter info scope fields of
             Inl e \<Rightarrow> Inl e
           | Inr rest \<Rightarrow> Inr (if scope \<in> set scopes then f # rest else rest)))"

text \<open>
  \<open>Array.from((new Set(allFields)).values())\<close>: a set keeps its members in the
  order of their first insertion, and adding a member it already has changes
  nothing.
\<close>

definition set_add :: "'a list \<Rightarrow> 'a \<Rightarrow> 'a list" where
  "set_add members x = (if x \<in> set members then members else members @ [x])"

definition set_values :: "'a list \<Rightarrow> 'a list" where
  "set_values xs = foldl set_add [] xs"

text \<open>
  \<open>scopeJoin\<close> calls \<open>left\<close> before \<open>right\<close>; \<open>scopeIntersect\<close> calls \<open>right\<close> before
  \<open>left\<close>.  Every child is called with the \<open>info\<close> and \<open>fields\<close> of its parent.
\<close>

fun evaluate :: "ScopeExpr \<Rightarrow> ScopeInfo \<Rightarrow> string list \<Rightarrow> error + string list" where
  "evaluate ScopeWildcard info fields = Inr fields"
| "evaluate (ScopeLiteral scope) info fields = literal_filter info scope fields"
| "evaluate (ScopeNegate subexpr) info fields =
     (case evaluate subexpr info fields of
        Inl e \<Rightarrow> Inl e
      | Inr excludedFields \<Rightarrow> Inr (filter (\<lambda>f. f \<notin> set excludedFields) fields))"
| "evaluate (ScopeJoin left right) info fields =
     (case evaluate left info fields of
        Inl e \<Rightarrow> Inl e
      | Inr l \<Rightarrow>
          (case evaluate right info fields of
             Inl e \<Rightarrow> Inl e
           | Inr r \<Rightarrow> Inr (set_values (l @ r))))"
| "evaluate (ScopeIntersect left right) info fields =
     (case evaluate right info fields of
        Inl e \<Rightarrow> Inl e
      | Inr includedFields \<Rightarrow>
          (case evaluate left info fields of
             Inl e \<Rightarrow> Inl e
           | Inr l \<Rightarrow> Inr (filter (\<lambda>f. f \<in> set includedFields) l)))"

subsection \<open>The model layer: scopeInfo and view\<close>

text \<open>
  Of a \<open>FieldDescriptor\<close> only the optional \<open>scopes\<close> is read here.  The
  \<open>Map<string, FieldDescriptor>\<close> of a model is an association list in insertion
  order; \<open>addField\<close> never stores a name twice.  Field names are taken to be
  ordinary property names (assigning to \<open>__proto__\<close> would replace the prototype
  of the object instead of adding a key).
\<close>

record FieldDescriptor =
  scopes :: "string list option"

text \<open>\<open>descriptor.scopes || []\<close>: an array, even an empty one, is truthy.\<close>

definition scopes_or_empty :: "FieldDescriptor \<Rightarrow> string list" where
  "scopes_or_empty descriptor = (case scopes descriptor of None \<Rightarrow> [] | Some s \<Rightarrow> s)"

definition scopeInfo :: "(string \<times> FieldDescriptor) list \<Rightarrow> ScopeInfo" where
  "scopeInfo fieldMap =
     foldl (\<lambda>info (name, descriptor). info(name \<mapsto> scopes_or_empty descriptor))
       Map.empty fieldMap"

text \<open>\<open>[...this.fields()]\<close>: the keys of the map, in insertion order.\<close>

definition model_fields :: "(string \<times> FieldDescriptor) list \<Rightarrow> string list" where
  "model_fields fieldMap = map fst fieldMap"

text \<open>
  \<open>Model.view\<close> up to the value of \<open>selected\<close>: the expression is parsed, then
  called on the scope information and the field names of the model.  Calling
  \<open>undefined\<close> throws.
\<close>

definition view_selected ::
    "(string \<times> FieldDescriptor) list \<Rightarrow> string \<Rightarrow> error + string list" where
  "view_selected fieldMap expr =
     (case parse expr of
        Inl e \<Rightarrow> Inl e
      | Inr None \<Rightarrow> Inl TypeError
      | Inr (Some scopeExpr) \<Rightarrow> evaluate scopeExpr (scopeInfo fieldMap) (model_fields fieldMap))"

section \<open>Auxiliary notions used in the statements\<close>

text \<open>A compiled expression contains a closure built by \<open>scopeLiteral\<close>.\<close>

fun has_literal :: "ScopeExpr \<Rightarrow> bool" where
  "has_literal ScopeWildcard = False"
| "has_literal (ScopeLiteral scope) = True"
| "has_literal (ScopeNegate subexpr) = has_literal subexpr"
| "has_literal (ScopeJoin left right) = (has_literal left \<or> has_literal right)"
| "has_literal (ScopeIntersect left right) = (has_literal left \<or> has_literal right)"

text \<open>
  The two conditions under which the specification says \<open>parse\<close> fails, written
  from its words and independently of the two stacks of the code.

  \<open>spec_unmatched_opens d tokens\<close> counts the opening parentheses that are still
  unmatched after \<open>tokens\<close>, starting with \<open>d\<close> of them; a closing parenthesis
  with nothing to close is ignored.
\<close>

fun spec_unmatched_opens :: "nat \<Rightarrow> string list \<Rightarrow> nat" where
  "spec_unmatched_opens d [] = d"
| "spec_unmatched_opens d (t # ts) =
     (if t = ''('' then spec_unmatched_opens (Suc d) ts
      else if t = '')'' then spec_unmatched_opens (d - 1) ts
      else spec_unmatched_opens d ts)"

text \<open>
  \<open>spec_operand_underflow d steps\<close>: with \<open>d\<close> operands available, some binary
  operator of \<open>steps\<close> is met with fewer than two operands, or some \<open>!\<close> with
  none.  A binary operator replaces two operands by one, \<open>!\<close> replaces one by
  one, and every other step adds one.
\<close>

fun spec_operand_underflow :: "nat \<Rightarrow> string list \<Rightarrow> bool" where
  "spec_operand_underflow d [] = False"
| "spec_operand_underflow d (s # steps) =
     (if s = ''|'' \<or> s = ''&'' then d < 2 \<or> spec_operand_underflow (d - 1) steps
      else if s = ''!'' then d < 1 \<or> spec_operand_underflow d steps
      else spec_operand_underflow (Suc d) steps)"

text \<open>
  The relation that holds between neighbours on the operator stack: the upper
  one binds more tightly, unless one of the two is an opening parenthesis.
\<close>

definition lower_or_paren :: "string \<Rightarrow> string \<Rightarrow> bool" where
  "lower_or_paren x y \<longleftrightarrow>
     x = ''('' \<or> y = ''('' \<or> less_number (opPrecedence x) (opPrecedence y)"

section \<open>Properties of the evaluator\<close>

subsection \<open>Sets in insertion order\<close>

lemma foldl_set_add:
  "foldl set_add acc xs = acc @ filter (\<lambda>x. x \<notin> set acc) (foldl set_add [] xs)"
  by (induction xs rule: rev_induct) (auto simp: set_add_def)

lemma set_set_values: "set (set_values xs) = set xs"
  by (induction xs rule: rev_induct) (auto simp: set_values_def set_add_def)

lemma distinct_set_values: "distinct (set_values xs)"
  by (induction xs rule: rev_induct) (auto simp: set_values_def set_add_def)

lemma set_values_append:
  "set_values (xs @ ys) = set_values xs @ filter (\<lambda>x. x \<notin> set xs) (set_values ys)"
  using foldl_set_add[of "set_values xs" ys]
  by (simp add: set_values_def set_set_values[unfolded set_values_def])

lemma set_values_distinct: "distinct xs \<Longrightarrow> set_values xs = xs"
  by (induction xs rule: rev_induct)
     (auto simp: set_values_def set_add_def set_set_values[unfolded set_values_def])

text \<open>Of each member the first occurrence is the one that stays.\<close>

lemma set_values_first_occurrences: "set_values xs = rev (remdups (rev xs))"
  by (induction xs rule: rev_induct)
     (auto simp: set_values_def set_add_def set_set_values[unfolded set_values_def])

subsection \<open>When a call throws\<close>

lemma literal_filter_eq:
  "literal_filter info scope fs =
     (if set fs \<subseteq> dom info
      then Inr (filter (\<lambda>f. \<exists>tags. info f = Some tags \<and> scope \<in> set tags) fs)
      else Inl TypeError)"
  by (induction fs) (auto split: option.splits sum.splits)

lemma evaluate_error_kind: "evaluate e info fs = Inl err \<Longrightarrow> err = TypeError"
  by (induction e arbitrary: err) (auto simp: literal_filter_eq split: sum.splits if_splits)

lemma evaluate_TypeError_iff:
  "evaluate e info fs = Inl TypeError \<longleftrightarrow> has_literal e \<and> \<not> set fs \<subseteq> dom info"
proof (induction e)
  case (ScopeLiteral scope)
  show ?case by (simp add: literal_filter_eq)
next
  case (ScopeNegate e)
  then show ?case
    by (cases "evaluate e info fs") (auto dest: evaluate_error_kind)
next
  case (ScopeJoin e1 e2)
  then show ?case
    by (cases "evaluate e1 info fs"; cases "evaluate e2 info fs")
       (auto dest: evaluate_error_kind)
next
  case (ScopeIntersect e1 e2)
  then show ?case
    by (cases "evaluate e1 info fs"; cases "evaluate e2 info fs")
       (auto dest: evaluate_error_kind)
qed simp

lemma evaluate_defined:
  "(\<exists>r. evaluate e info fs = Inr r) \<longleftrightarrow> \<not> has_literal e \<or> set fs \<subseteq> dom info"
proof -
  have "(\<exists>r. evaluate e info fs = Inr r) \<longleftrightarrow> evaluate e info fs \<noteq> Inl TypeError"
    by (cases "evaluate e info fs") (auto dest: evaluate_error_kind)
  then show ?thesis by (simp add: evaluate_TypeError_iff)
qed

subsection \<open>What a call returns\<close>

lemma evaluate_subset: "evaluate e info fs = Inr r \<Longrightarrow> set r \<subseteq> set fs"
proof (induction e arbitrary: r)
  case (ScopeJoin left right)
  then show ?case by (auto simp: set_set_values split: sum.splits)
qed (auto simp: literal_filter_eq split: sum.splits if_splits)

lemma evaluate_distinct: "distinct fs \<Longrightarrow> evaluate e info fs = Inr r \<Longrightarrow> distinct r"
proof (induction e arbitrary: r)
  case (ScopeJoin left right)
  then show ?case by (auto simp: distinct_set_values split: sum.splits)
qed (auto simp: literal_filter_eq split: sum.splits if_splits)

text \<open>
  At the level of compiled expressions negation is a complement: the results of
  an expression and of its \<open>scopeNegate\<close> split the fields between them.
\<close>

lemma scopeNegate_complement:
  assumes "evaluate e info fs = Inr r"
  shows "\<exists>r'. evaluate (ScopeNegate e) info fs = Inr r'
           \<and> set r \<union> set r' = set fs \<and> set r \<inter> set r' = {}"
  using assms evaluate_subset[OF assms] by auto

subsection \<open>Claims about the evaluator\<close>

text \<open>
  Claim C1 says that calling a compiled expression returns normally for every
  scope information and every field sequence, a field that is not a key of the
  scope information counting as a field without scopes.  The code reads
  \<open>info[f].includes(scope)\<close> without a guard, so a literal called on such a field
  throws.
\<close>

theorem literal_on_absent_field_throws:
  "evaluate (ScopeLiteral ''public'') [''name'' \<mapsto> [''public'']] [''id''] = Inl TypeError"
  by simp

text \<open>
  Claim C1, amended: calling a compiled expression returns normally exactly when
  every member of the field sequence is a key of the scope information or the
  expression contains no literal; in the remaining case it throws a
  \<open>TypeError\<close>.
\<close>

theorem evaluate_returns_iff:
  "((\<exists>r. evaluate e info fs = Inr r) \<longleftrightarrow> (has_literal e \<longrightarrow> set fs \<subseteq> dom info))
   \<and> (\<not> (\<exists>r. evaluate e info fs = Inr r) \<longrightarrow> evaluate e info fs = Inl TypeError)"
proof
  show "(\<exists>r. evaluate e info fs = Inr r) \<longleftrightarrow> (has_literal e \<longrightarrow> set fs \<subseteq> dom info)"
    using evaluate_defined[of e info fs] by blast
  show "\<not> (\<exists>r. evaluate e info fs = Inr r) \<longrightarrow> evaluate e info fs = Inl TypeError"
    by (cases "evaluate e info fs") (auto dest: evaluate_error_kind)
qed

theorem evaluate_returns_iff_witness:
  "has_literal (ScopeNegate (ScopeLiteral ''public''))
   \<and> set [''name''] \<subseteq> dom [''name'' \<mapsto> [''public'']]
   \<and> (\<exists>r. evaluate (ScopeNegate (ScopeLiteral ''public''))
             [''name'' \<mapsto> [''public'']] [''name''] = Inr r)
   \<and> \<not> set [''id''] \<subseteq> dom [''name'' \<mapsto> [''public'']]
   \<and> evaluate (ScopeNegate (ScopeLiteral ''public''))
             [''name'' \<mapsto> [''public'']] [''id''] = Inl TypeError"
proof -
  have lit: "has_literal (ScopeNegate (ScopeLiteral ''public''))" by simp
  have key: "set [''name''] \<subseteq> dom [''name'' \<mapsto> [''public'']]" by simp
  have nokey: "\<not> set [''id''] \<subseteq> dom [''name'' \<mapsto> [''public'']]" by simp
  have ret: "\<exists>r. evaluate (ScopeNegate (ScopeLiteral ''public''))
             [''name'' \<mapsto> [''public'']] [''name''] = Inr r"
    using evaluate_returns_iff[of "ScopeNegate (ScopeLiteral ''public'')"
            "[''name'' \<mapsto> [''public'']]" "[''name'']"] key
    by blast
  have thr: "evaluate (ScopeNegate (ScopeLiteral ''public''))
             [''name'' \<mapsto> [''public'']] [''id''] = Inl TypeError"
    using evaluate_returns_iff[of "ScopeNegate (ScopeLiteral ''public'')"
            "[''name'' \<mapsto> [''public'']]" "[''id'']"] lit nokey
    by blast
  show ?thesis using lit key nokey ret thr by blast
qed

text \<open>
  Claim C5: when both children return, \<open>scopeJoin\<close> returns the deduplicated
  concatenation of the result of \<open>left\<close> followed by the result of \<open>right\<close>, that
  is, the members of the left result in their order followed by the members of
  the right result that the left result does not have, in their order.  Every
  member occurs once in the output; when the field sequence has no duplicates
  the results of the children have none either, and the output is the left
  result as it is followed by the new members of the right result.
\<close>

theorem scopeJoin_result:
  assumes "evaluate left info fs = Inr l" and "evaluate right info fs = Inr r"
  shows "evaluate (ScopeJoin left right) info fs = Inr (set_values (l @ r))
         \<and> set_values (l @ r) = set_values l @ filter (\<lambda>f. f \<notin> set l) (set_values r)
         \<and> set_values (l @ r) = rev (remdups (rev (l @ r)))
         \<and> (distinct fs \<longrightarrow>
              evaluate (ScopeJoin left right) info fs = Inr (l @ filter (\<lambda>f. f \<notin> set l) r))"
proof (intro conjI impI)
  show "evaluate (ScopeJoin left right) info fs = Inr (set_values (l @ r))"
    using assms by simp
  show "set_values (l @ r) = set_values l @ filter (\<lambda>f. f \<notin> set l) (set_values r)"
    by (rule set_values_append)
  show "set_values (l @ r) = rev (remdups (rev (l @ r)))"
    by (rule set_values_first_occurrences)
next
  assume d: "distinct fs"
  have "distinct l" "distinct r"
    using d assms by (auto dest: evaluate_distinct)
  then have "set_values (l @ r) = l @ filter (\<lambda>f. f \<notin> set l) r"
    by (simp add: set_values_append set_values_distinct)
  then show "evaluate (ScopeJoin left right) info fs = Inr (l @ filter (\<lambda>f. f \<notin> set l) r)"
    using assms by simp
qed

theorem scopeJoin_result_witness:
  "evaluate (ScopeLiteral ''private'')
     [''name'' \<mapsto> [''public''], ''email'' \<mapsto> [''private'']] [''name'', ''email'']
     = Inr [''email'']
   \<and> evaluate ScopeWildcard
     [''name'' \<mapsto> [''public''], ''email'' \<mapsto> [''private'']] [''name'', ''email'']
     = Inr [''name'', ''email'']
   \<and> distinct [''name'', ''email'']
   \<and> evaluate (ScopeJoin (ScopeLiteral ''private'') ScopeWildcard)
     [''name'' \<mapsto> [''public''], ''email'' \<mapsto> [''private'']] [''name'', ''email'']
     = Inr [''email'', ''name'']"
proof -
  have l: "evaluate (ScopeLiteral ''private'')
     [''name'' \<mapsto> [''public''], ''email'' \<mapsto> [''private'']] [''name'', ''email'']
     = Inr [''email'']"
    by simp
  have r: "evaluate ScopeWildcard
     [''name'' \<mapsto> [''public''], ''email'' \<mapsto> [''private'']] [''name'', ''email'']
     = Inr [''name'', ''email'']"
    by simp
  have d: "distinct [''name'', ''email'']" by simp
  show ?thesis using l r d scopeJoin_result[OF l r] by (simp add: set_values_def set_add_def)
qed

text \<open>
  Claim C6: when the child returns, \<open>scopeNegate\<close> returns the field sequence
  without the members of the child's result, in the order of the field
  sequence.  The child is called with the very field sequence given to the
  negation: next to a sibling under \<open>scopeIntersect\<close>, on either side, the
  complement is still taken in the whole field sequence and not in the
  sibling's result.
\<close>

theorem scopeNegate_result:
  assumes "evaluate subexpr info fs = Inr excluded"
  shows "evaluate (ScopeNegate subexpr) info fs = Inr (filter (\<lambda>f. f \<notin> set excluded) fs)
         \<and> (evaluate sibling info fs = Inr s \<longrightarrow>
              evaluate (ScopeIntersect sibling (ScopeNegate subexpr)) info fs
                = Inr (filter (\<lambda>f. f \<in> set (filter (\<lambda>f. f \<notin> set excluded) fs)) s)
              \<and> evaluate (ScopeIntersect (ScopeNegate subexpr) sibling) info fs
                = Inr (filter (\<lambda>f. f \<in> set s) (filter (\<lambda>f. f \<notin> set excluded) fs)))"
  using assms by simp

theorem scopeNegate_result_witness:
  "evaluate (ScopeLiteral ''private'')
     [''id'' \<mapsto> [], ''name'' \<mapsto> [''public''], ''email'' \<mapsto> [''private'']]
     [''id'', ''name'', ''email''] = Inr [''email'']
   \<and> evaluate (ScopeNegate (ScopeLiteral ''private''))
     [''id'' \<mapsto> [], ''name'' \<mapsto> [''public''], ''email'' \<mapsto> [''private'']]
     [''id'', ''name'', ''email''] = Inr [''id'', ''name'']
   \<and> evaluate (ScopeIntersect (ScopeLiteral ''public'') (ScopeNegate (ScopeLiteral ''private'')))
     [''id'' \<mapsto> [], ''name'' \<mapsto> [''public''], ''email'' \<mapsto> [''private'']]
     [''id'', ''name'', ''email''] = Inr [''name'']"
proof -
  have c: "evaluate (ScopeLiteral ''private'')
     [''id'' \<mapsto> [], ''name'' \<mapsto> [''public''], ''email'' \<mapsto> [''private'']]
     [''id'', ''name'', ''email''] = Inr [''email'']"
    by simp
  have s: "evaluate (ScopeLiteral ''public'')
     [''id'' \<mapsto> [], ''name'' \<mapsto> [''public''], ''email'' \<mapsto> [''private'']]
     [''id'', ''name'', ''email''] = Inr [''name'']"
    by simp
  show ?thesis
    using c s scopeNegate_result[OF c, of "ScopeLiteral ''public''" "[''name'']"]
    by simp
qed

text \<open>
  Claim C8: whenever a call of a compiled expression returns, every member of
  the result is a member of the field sequence it was given.
\<close>

theorem evaluate_narrows:
  "evaluate e info fs = Inr r \<Longrightarrow> set r \<subseteq> set fs"
proof (induction e arbitrary: r)
  case ScopeWildcard
  then show ?case by simp
next
  case (ScopeLiteral scope)
  then show ?case by (auto simp: literal_filter_eq split: if_splits)
next
  case (ScopeNegate subexpr)
  then show ?case by (auto split: sum.splits)
next
  case (ScopeJoin left right)
  then show ?case by (auto simp: set_set_values split: sum.splits)
next
  case (ScopeIntersect left right)
  then show ?case by (auto split: sum.splits)
qed

theorem evaluate_narrows_witness:
  "evaluate (ScopeJoin (ScopeNegate (ScopeLiteral ''private'')) ScopeWildcard)
     [''name'' \<mapsto> [''public''], ''email'' \<mapsto> [''private'']] [''email'', ''name'']
     = Inr [''name'', ''email'']
   \<and> set [''name'', ''email''] \<subseteq> set [''email'', ''name'']"
proof -
  have h: "evaluate (ScopeJoin (ScopeNegate (ScopeLiteral ''private'')) ScopeWildcard)
     [''name'' \<mapsto> [''public''], ''email'' \<mapsto> [''private'']] [''email'', ''name'']
     = Inr [''name'', ''email'']"
    by code_simp
  show ?thesis using h evaluate_narrows[OF h] by simp
qed

section \<open>Properties of the parser\<close>

subsection \<open>Opening parentheses on the operator stack\<close>

lemma count_list_butlast:
  "xs \<noteq> [] \<Longrightarrow> count_list (butlast xs) x = count_list xs x - (if last xs = x then 1 else 0)"
  by (induction xs rule: rev_induct) auto

lemma pop_operators_count:
  "count_list (fst (pop_operators p st)) ''('' = count_list (fst st) ''(''"
proof (induction p st rule: pop_operators.induct)
  case (1 precedence opStack outputStack)
  then show ?case
    by (subst pop_operators.simps) (simp add: count_list_butlast)
qed

lemma pop_to_paren_count:
  "count_list (fst (pop_to_paren st)) ''('' = count_list (fst st) ''(''"
proof (induction st rule: pop_to_paren.induct)
  case (1 opStack outputStack)
  then show ?case
    by (subst pop_to_paren.simps) (simp add: count_list_butlast)
qed

lemma pop_to_paren_top:
  "fst (pop_to_paren st) = [] \<or> last (fst (pop_to_paren st)) = ''(''"
proof (induction st rule: pop_to_paren.induct)
  case (1 opStack outputStack)
  then show ?case
    by (subst (1 2) pop_to_paren.simps) auto
qed

lemma precedence_step_count:
  "count_list (fst (precedence_step st t)) ''(''
     = spec_unmatched_opens (count_list (fst st) ''('') [t]"
proof -
  have close: "count_list (butlast (fst (pop_to_paren st))) ''('' = count_list (fst st) ''('' - 1"
    using pop_to_paren_top[of st] pop_to_paren_count[of st]
    by (cases "fst (pop_to_paren st) = []") (auto simp: count_list_butlast)
  have op: "count_list (fst (pop_operators p st) @ [t]) ''('' = count_list (fst st) ''(''"
    if "t \<noteq> ''(''" for p
    using that pop_operators_count[of p st] by simp
  show ?thesis
    using close op
    by (simp add: precedence_step_def case_prod_beta)
qed

lemma spec_unmatched_opens_append:
  "spec_unmatched_opens d (ts @ us) = spec_unmatched_opens (spec_unmatched_opens d ts) us"
  by (induction ts arbitrary: d) auto

lemma precedence_loop_count:
  "count_list (fst (foldl precedence_step st tokens)) ''(''
     = spec_unmatched_opens (count_list (fst st) ''('') tokens"
proof (induction tokens rule: rev_induct)
  case Nil
  show ?case by simp
next
  case (snoc t ts)
  then show ?case by (simp add: precedence_step_count spec_unmatched_opens_append)
qed

lemma applyPrecedence_error_iff:
  "applyPrecedence tokens = Inl err \<longleftrightarrow> err = ParseError \<and> 0 < spec_unmatched_opens 0 tokens"
proof -
  obtain ops out where st: "precedence_loop tokens = (ops, out)"
    by (cases "precedence_loop tokens")
  have "count_list ops ''('' = spec_unmatched_opens 0 tokens"
    using precedence_loop_count[of "([], [])" tokens] st by (simp add: precedence_loop_def)
  then have "''('' \<in> set ops \<longleftrightarrow> 0 < spec_unmatched_opens 0 tokens"
    using count_list_0_iff[of ops "''(''"] by auto
  then show ?thesis by (auto simp: applyPrecedence_def st)
qed

subsection \<open>Operands on the compiler's stack\<close>

lemma prepare_loop_error_iff:
  "prepare_loop stack steps = Inl err
     \<longleftrightarrow> err = ParseError \<and> spec_operand_underflow (length stack) steps"
proof (induction steps arbitrary: stack)
  case Nil
  show ?case by simp
next
  case (Cons s steps)
  have len: "Suc (length stack - Suc (Suc 0)) = length stack - Suc 0" if "\<not> length stack < 2"
    using that by arith
  show ?case
    by (cases "prepare_step stack s")
       (auto simp: prepare_step_def Cons.IH len split: if_splits)
qed

lemma prepareExpr_error_iff:
  "prepareExpr steps = Inl err \<longleftrightarrow> err = ParseError \<and> spec_operand_underflow 0 steps"
  using prepare_loop_error_iff[of "[]" steps err]
  by (auto simp: prepareExpr_def split: sum.splits)

lemma parse_error_iff:
  "parse expr = Inl err \<longleftrightarrow>
     err = ParseError \<and>
     (0 < spec_unmatched_opens 0 (tokenize expr) \<or>
      (\<exists>steps. applyPrecedence (tokenize expr) = Inr steps \<and> spec_operand_underflow 0 steps))"
proof (cases "applyPrecedence (tokenize expr)")
  case (Inl e)
  then show ?thesis using applyPrecedence_error_iff[of "tokenize expr" e]
    by (auto simp: parse_def)
next
  case (Inr steps)
  then have "\<not> 0 < spec_unmatched_opens 0 (tokenize expr)"
    using applyPrecedence_error_iff[of "tokenize expr" ParseError] by auto
  then show ?thesis using Inr prepareExpr_error_iff[of steps err]
    by (auto simp: parse_def)
qed

subsection \<open>The order of the operator stack\<close>

lemma successively_butlast: "successively P xs \<Longrightarrow> successively P (butlast xs)"
proof (cases "xs = []")
  case False
  assume "successively P xs"
  then have "successively P (butlast xs @ [last xs])" using False by simp
  then show ?thesis unfolding successively_append_iff by blast
qed simp

lemma pop_operators_climbing:
  "successively lower_or_paren (fst st) \<Longrightarrow>
   successively lower_or_paren (fst (pop_operators p st)) \<and>
   (fst (pop_operators p st) = [] \<or> last (fst (pop_operators p st)) = ''(''
    \<or> less_number (opPrecedence (last (fst (pop_operators p st)))) p)"
proof (induction p st rule: pop_operators.induct)
  case (1 precedence opStack outputStack)
  then show ?case
    by (subst (1 2 3 4) pop_operators.simps) (auto simp: successively_butlast)
qed

lemma pop_operators_push:
  "successively lower_or_paren (fst st) \<Longrightarrow>
   successively lower_or_paren (fst (pop_operators (opPrecedence cur) st) @ [cur])"
  using pop_operators_climbing[of st "opPrecedence cur"]
  by (auto simp: successively_append_iff lower_or_paren_def)

lemma pop_to_paren_climbing:
  "successively lower_or_paren (fst st) \<Longrightarrow> successively lower_or_paren (fst (pop_to_paren st))"
proof (induction st rule: pop_to_paren.induct)
  case (1 opStack outputStack)
  then show ?case
    by (subst pop_to_paren.simps) (auto simp: successively_butlast)
qed

lemma precedence_step_climbing:
  "successively lower_or_paren (fst st) \<Longrightarrow>
   successively lower_or_paren (fst (precedence_step st t))"
proof -
  assume inv: "successively lower_or_paren (fst st)"
  have paren: "successively lower_or_paren (fst st @ [''(''])"
    using inv by (simp add: successively_append_iff lower_or_paren_def)
  have close: "successively lower_or_paren (butlast (fst (pop_to_paren st)))"
    using inv by (simp add: pop_to_paren_climbing successively_butlast)
  show ?thesis
    using inv paren close pop_operators_push[OF inv]
    by (simp add: precedence_step_def case_prod_beta)
qed

lemma precedence_loop_climbing:
  "successively lower_or_paren (fst st) \<Longrightarrow>
   successively lower_or_paren (fst (foldl precedence_step st tokens))"
  by (induction tokens rule: rev_induct) (auto simp: precedence_step_climbing)

lemma less_number_trans: "less_number a b \<Longrightarrow> less_number b c \<Longrightarrow> less_number a c"
  by (auto simp: less_number_def split: option.splits)

text \<open>
  A stack without parentheses on which precedence climbs strictly from the
  bottom to the top reads differently from the top down as soon as it has two
  members.
\<close>

lemma climbing_not_palindrome:
  assumes "successively lower_or_paren ops" and "''('' \<notin> set ops" and "2 \<le> length ops"
  shows "rev ops \<noteq> ops"
proof -
  let ?P = "\<lambda>x y. less_number (opPrecedence x) (opPrecedence y)"
  have "successively ?P ops"
    using assms(1,2)
    by (rule_tac successively_mono[where P = lower_or_paren]) (auto simp: lower_or_paren_def)
  moreover have "transp ?P" by (auto simp: transp_def intro: less_number_trans)
  ultimately have "sorted_wrt ?P ops" by (simp add: successively_conv_sorted_wrt)
  then have "?P (ops ! 0) (ops ! (length ops - 1))"
    using assms(3) sorted_wrt_nth_less[of ?P ops 0 "length ops - 1"] by simp
  then have "ops ! 0 \<noteq> ops ! (length ops - 1)"
    by (auto simp: less_number_def split: option.splits)
  moreover have "rev ops ! 0 = ops ! (length ops - 1)"
    using assms(3) rev_nth[of 0 ops] by (cases ops) auto
  ultimately show ?thesis by metis
qed

subsection \<open>The scope information of a model\<close>

lemma dom_scopeInfo_aux:
  "dom (foldl (\<lambda>info (name, descriptor). info(name \<mapsto> scopes_or_empty descriptor)) m fm)
     = dom m \<union> set (map fst fm)"
  by (induction fm arbitrary: m) (auto split: prod.splits)

lemma dom_scopeInfo: "dom (scopeInfo fm) = set (model_fields fm)"
  by (simp add: scopeInfo_def model_fields_def dom_scopeInfo_aux)

lemma scopeInfo_aux_notin:
  "name \<notin> set (map fst fm) \<Longrightarrow>
   foldl (\<lambda>info (name, descriptor). info(name \<mapsto> scopes_or_empty descriptor)) m fm name
     = m name"
  by (induction fm arbitrary: m) (auto split: prod.splits)

lemma scopeInfo_aux_lookup:
  "distinct (map fst fm) \<Longrightarrow> (name, d) \<in> set fm \<Longrightarrow>
   foldl (\<lambda>info (name, descriptor). info(name \<mapsto> scopes_or_empty descriptor)) m fm name
     = Some (scopes_or_empty d)"
proof (induction fm arbitrary: m)
  case Nil
  then show ?case by simp
next
  case (Cons a fm)
  obtain n' d' where a: "a = (n', d')" by (cases a)
  show ?case
  proof (cases "(name, d) = a")
    case True
    with Cons.prems have "name \<notin> set (map fst fm)" by force
    from scopeInfo_aux_notin[OF this] True show ?thesis
      by (simp add: a del: fun_upd_apply) simp
  next
    case False
    with Cons.prems have "(name, d) \<in> set fm" "distinct (map fst fm)" by force+
    from Cons.IH[OF this(2) this(1)] show ?thesis by (simp add: a del: fun_upd_apply)
  qed
qed

lemma scopeInfo_lookup:
  "distinct (map fst fm) \<Longrightarrow> (name, d) \<in> set fm \<Longrightarrow>
   scopeInfo fm name = Some (scopes_or_empty d)"
  by (simp add: scopeInfo_def scopeInfo_aux_lookup)

subsection \<open>Claims about the parser\<close>

text \<open>
  Claim C2 says that \<open>parse\<close> of the empty string produces an empty token
  sequence and that the compiler then fails with a parse error.  The first half
  holds.  The compiler, however, checks the height of its stack before every
  pop except the last one: on an empty sequence of steps \<open>return stack.pop()\<close>
  returns \<open>undefined\<close> and no \<open>ParseError\<close> is thrown.
\<close>

theorem parse_empty_string:
  "tokenize '''' = [] \<and> applyPrecedence [] = Inr [] \<and> prepareExpr [] = Inr None
   \<and> parse '''' = Inr None"
proof (intro conjI)
  show "tokenize '''' = []"
    by (simp add: tokenize_def trim_def)
  show "applyPrecedence [] = Inr []"
    by (simp add: applyPrecedence_def precedence_loop_def)
  show "prepareExpr [] = Inr None"
    by (simp add: prepareExpr_def)
  show "parse '''' = Inr None"
    by code_simp
qed

text \<open>
  Claim C3: \<open>parse\<close> throws \<open>ParseError\<close> if and only if an opening parenthesis
  is left unmatched when precedence resolution ends, or, failing that, the
  compiler meets a binary operator with fewer than two operands or a \<open>!\<close> with
  none.  \<open>parse\<close> throws nothing else, and calling a compiled expression never
  throws \<open>ParseError\<close>.  In particular the unmatched closing parenthesis of
  \<open>a)\<close> and the second operand left on the stack by \<open>(a)b\<close> do not make \<open>parse\<close>
  throw.
\<close>

theorem parse_error_triggers:
  "(parse expr = Inl ParseError \<longleftrightarrow>
      0 < spec_unmatched_opens 0 (tokenize expr) \<or>
      (\<exists>steps. applyPrecedence (tokenize expr) = Inr steps \<and> spec_operand_underflow 0 steps))
   \<and> parse expr \<noteq> Inl TypeError
   \<and> evaluate e info fs \<noteq> Inl ParseError
   \<and> parse ''a)'' = Inr (Some (ScopeLiteral ''a''))
   \<and> parse ''(a)b'' = Inr (Some (ScopeLiteral ''b''))"
proof (intro conjI)
  show "parse expr = Inl ParseError \<longleftrightarrow>
      0 < spec_unmatched_opens 0 (tokenize expr) \<or>
      (\<exists>steps. applyPrecedence (tokenize expr) = Inr steps \<and> spec_operand_underflow 0 steps)"
    by (simp add: parse_error_iff)
  show "parse expr \<noteq> Inl TypeError"
    by (simp add: parse_error_iff)
  show "evaluate e info fs \<noteq> Inl ParseError"
    using evaluate_error_kind[of e info fs ParseError] by auto
  show "parse ''a)'' = Inr (Some (ScopeLiteral ''a''))"
    by code_simp
  show "parse ''(a)b'' = Inr (Some (ScopeLiteral ''b''))"
    by code_simp
qed

theorem parse_error_triggers_witness:
  "0 < spec_unmatched_opens 0 (tokenize ''(a'') \<and> parse ''(a'' = Inl ParseError
   \<and> applyPrecedence (tokenize ''a&'') = Inr [''a'', ''&'']
   \<and> spec_operand_underflow 0 [''a'', ''&''] \<and> parse ''a&'' = Inl ParseError
   \<and> applyPrecedence (tokenize ''!'') = Inr [''!'']
   \<and> spec_operand_underflow 0 [''!''] \<and> parse ''!'' = Inl ParseError"
proof -
  have o: "0 < spec_unmatched_opens 0 (tokenize ''(a'')" by code_simp
  have b: "applyPrecedence (tokenize ''a&'') = Inr [''a'', ''&'']" by code_simp
  have b': "spec_operand_underflow 0 [''a'', ''&'']" by simp
  have u: "applyPrecedence (tokenize ''!'') = Inr [''!'']" by code_simp
  have u': "spec_operand_underflow 0 [''!'']" by simp
  have 1: "parse ''(a'' = Inl ParseError"
    using parse_error_triggers[of "''(a''"] o by blast
  have 2: "parse ''a&'' = Inl ParseError"
    using parse_error_triggers[of "''a&''"] b b' by blast
  have 3: "parse ''!'' = Inl ParseError"
    using parse_error_triggers[of "''!''"] u u' by blast
  show ?thesis using o b b' u u' 1 2 3 by blast
qed

text \<open>
  Claim C4: when the tokens are consumed and no opening parenthesis is left on
  the operator stack, the postfix sequence is the output followed by the
  operator stack in the order in which it was pushed, bottom first.  With two or
  more operators left this is never the sequence that popping them one by one
  would give.
\<close>

theorem trailing_operators_order:
  assumes "precedence_loop tokens = (opStack, outputStack)" and "''('' \<notin> set opStack"
  shows "applyPrecedence tokens = Inr (outputStack @ opStack)
         \<and> (2 \<le> length opStack \<longrightarrow> applyPrecedence tokens \<noteq> Inr (outputStack @ rev opStack))"
proof (intro conjI impI)
  show "applyPrecedence tokens = Inr (outputStack @ opStack)"
    using assms by (simp add: applyPrecedence_def)
next
  assume two: "2 \<le> length opStack"
  have "successively lower_or_paren opStack"
    using precedence_loop_climbing[of "([], [])" tokens] assms(1)
    by (simp add: precedence_loop_def)
  then show "applyPrecedence tokens \<noteq> Inr (outputStack @ rev opStack)"
    using climbing_not_palindrome[OF _ assms(2) two] assms by (simp add: applyPrecedence_def)
qed

theorem trailing_operators_order_witness:
  "precedence_loop [''a'', ''|'', ''b'', ''&'', ''c''] = ([''|'', ''&''], [''a'', ''b'', ''c''])
   \<and> ''('' \<notin> set [''|'', ''&'']
   \<and> 2 \<le> length [''|'', ''&'']
   \<and> applyPrecedence [''a'', ''|'', ''b'', ''&'', ''c''] = Inr [''a'', ''b'', ''c'', ''|'', ''&'']
   \<and> applyPrecedence [''a'', ''|'', ''b'', ''&'', ''c''] \<noteq> Inr [''a'', ''b'', ''c'', ''&'', ''|'']"
proof -
  have l: "precedence_loop [''a'', ''|'', ''b'', ''&'', ''c''] = ([''|'', ''&''], [''a'', ''b'', ''c''])"
    by code_simp
  have p: "''('' \<notin> set [''|'', ''&'']" by simp
  show ?thesis using l p trailing_operators_order[OF l p] by simp
qed

text \<open>
  Claim C7, the complement law: for a well-formed expression \<open>E\<close> the results of
  \<open>parse(E)\<close> and of \<open>parse\<close> of \<open>!(E)\<close> together make up the field sequence and
  have no member in common.  For \<open>E = a|b&c\<close> the two trailing operators reach
  the postfix sequence bottom first, so \<open>parse(E)\<close> compiles \<open>(c|b)&a\<close>, whereas
  inside the parentheses of \<open>!(E)\<close> they are popped top first and the negation
  of \<open>(c&b)|a\<close> is compiled.  A field tagged \<open>a\<close> alone is selected by neither.
\<close>

theorem complement_law_fails_for_trailing_operators:
  "parse ''a|b&c'' = Inr (Some
     (ScopeIntersect (ScopeJoin (ScopeLiteral ''c'') (ScopeLiteral ''b'')) (ScopeLiteral ''a'')))
   \<and> parse ''!(a|b&c)'' = Inr (Some (ScopeNegate
     (ScopeJoin (ScopeIntersect (ScopeLiteral ''c'') (ScopeLiteral ''b'')) (ScopeLiteral ''a''))))
   \<and> evaluate
     (ScopeIntersect (ScopeJoin (ScopeLiteral ''c'') (ScopeLiteral ''b'')) (ScopeLiteral ''a''))
     [''f'' \<mapsto> [''a'']] [''f''] = Inr []
   \<and> evaluate (ScopeNegate
     (ScopeJoin (ScopeIntersect (ScopeLiteral ''c'') (ScopeLiteral ''b'')) (ScopeLiteral ''a'')))
     [''f'' \<mapsto> [''a'']] [''f''] = Inr []"
proof (intro conjI)
  show "parse ''a|b&c'' = Inr (Some
     (ScopeIntersect (ScopeJoin (ScopeLiteral ''c'') (ScopeLiteral ''b'')) (ScopeLiteral ''a'')))"
    by code_simp
  show "parse ''!(a|b&c)'' = Inr (Some (ScopeNegate
     (ScopeJoin (ScopeIntersect (ScopeLiteral ''c'') (ScopeLiteral ''b'')) (ScopeLiteral ''a''))))"
    by code_simp
  show "evaluate
     (ScopeIntersect (ScopeJoin (ScopeLiteral ''c'') (ScopeLiteral ''b'')) (ScopeLiteral ''a''))
     [''f'' \<mapsto> [''a'']] [''f''] = Inr []"
    by code_simp
  show "evaluate (ScopeNegate
     (ScopeJoin (ScopeIntersect (ScopeLiteral ''c'') (ScopeLiteral ''b'')) (ScopeLiteral ''a'')))
     [''f'' \<mapsto> [''a'']] [''f''] = Inr []"
    by code_simp
qed

text \<open>
  Claim C9: with the scope information \<open>id: []\<close>, \<open>name: [public]\<close>,
  \<open>email: [private]\<close>, \<open>ssn: [private, sensitive]\<close> and the fields \<open>id\<close>, \<open>name\<close>,
  \<open>email\<close>, \<open>ssn\<close>, the expression \<open>*&!sensitive\<close> parses and its call returns
  \<open>id\<close>, \<open>name\<close>, \<open>email\<close> in that order.
\<close>

theorem wildcard_and_not_sensitive:
  "parse ''*&!sensitive''
     = Inr (Some (ScopeNegate (ScopeIntersect (ScopeLiteral ''sensitive'') ScopeWildcard)))
   \<and> evaluate (ScopeNegate (ScopeIntersect (ScopeLiteral ''sensitive'') ScopeWildcard))
       [''id'' \<mapsto> [], ''name'' \<mapsto> [''public''], ''email'' \<mapsto> [''private''],
        ''ssn'' \<mapsto> [''private'', ''sensitive'']]
       [''id'', ''name'', ''email'', ''ssn'']
     = Inr [''id'', ''name'', ''email'']"
proof
  show "parse ''*&!sensitive''
     = Inr (Some (ScopeNegate (ScopeIntersect (ScopeLiteral ''sensitive'') ScopeWildcard)))"
    by code_simp
  show "evaluate (ScopeNegate (ScopeIntersect (ScopeLiteral ''sensitive'') ScopeWildcard))
       [''id'' \<mapsto> [], ''name'' \<mapsto> [''public''], ''email'' \<mapsto> [''private''],
        ''ssn'' \<mapsto> [''private'', ''sensitive'']]
       [''id'', ''name'', ''email'', ''ssn'']
     = Inr [''id'', ''name'', ''email'']"
    by code_simp
qed

text \<open>
  Claim C10: if every member of the field sequence is a key of the scope
  information, calling a compiled expression does not throw.  \<open>scopeInfo\<close>
  establishes this for \<open>Model.view\<close>: its keys are exactly the field names of the
  model, each mapped to the declared scopes of the field or to the empty list,
  so the call made by \<open>view\<close> on these field names returns whatever the
  expression is.
\<close>

theorem scopeInfo_establishes_precondition:
  "(set fs \<subseteq> dom info \<longrightarrow> (\<exists>r. evaluate e info fs = Inr r))
   \<and> dom (scopeInfo fieldMap) = set (model_fields fieldMap)
   \<and> (distinct (map fst fieldMap) \<longrightarrow> (name, d) \<in> set fieldMap \<longrightarrow>
        scopeInfo fieldMap name = Some (scopes_or_empty d))
   \<and> (\<exists>r. evaluate e (scopeInfo fieldMap) (model_fields fieldMap) = Inr r)
   \<and> (parse expr = Inr (Some e) \<longrightarrow> (\<exists>r. view_selected fieldMap expr = Inr r))"
proof -
  have total: "\<exists>r. evaluate e' (scopeInfo fieldMap) (model_fields fieldMap) = Inr r" for e'
    using evaluate_defined[of e' "scopeInfo fieldMap" "model_fields fieldMap"]
    by (simp add: dom_scopeInfo)
  have 1: "set fs \<subseteq> dom info \<longrightarrow> (\<exists>r. evaluate e info fs = Inr r)"
    using evaluate_defined[of e info fs] by blast
  have 2: "dom (scopeInfo fieldMap) = set (model_fields fieldMap)"
    by (rule dom_scopeInfo)
  have 3: "distinct (map fst fieldMap) \<longrightarrow> (name, d) \<in> set fieldMap \<longrightarrow>
        scopeInfo fieldMap name = Some (scopes_or_empty d)"
    using scopeInfo_lookup by blast
  have 5: "parse expr = Inr (Some e) \<longrightarrow> (\<exists>r. view_selected fieldMap expr = Inr r)"
    using total[of e] by (simp add: view_selected_def)
  show ?thesis using 1 2 3 total[of e] 5 by blast
qed

theorem scopeInfo_establishes_precondition_witness:
  "set [''name''] \<subseteq> dom [''name'' \<mapsto> [''public'']]
   \<and> (\<exists>r. evaluate (ScopeLiteral ''public'') [''name'' \<mapsto> [''public'']] [''name''] = Inr r)
   \<and> distinct (map fst [(''id'', \<lparr>scopes = None\<rparr>), (''name'', \<lparr>scopes = Some [''public'']\<rparr>)])
   \<and> (''id'', \<lparr>scopes = None\<rparr>)
        \<in> set [(''id'', \<lparr>scopes = None\<rparr>), (''name'', \<lparr>scopes = Some [''public'']\<rparr>)]
   \<and> scopeInfo [(''id'', \<lparr>scopes = None\<rparr>), (''name'', \<lparr>scopes = Some [''public'']\<rparr>)] ''id''
        = Some []
   \<and> parse ''public'' = Inr (Some (ScopeLiteral ''public''))
   \<and> (\<exists>r. view_selected
             [(''id'', \<lparr>scopes = None\<rparr>), (''name'', \<lparr>scopes = Some [''public'']\<rparr>)]
             ''public'' = Inr r)"
proof -
  let ?fm = "[(''id'', \<lparr>scopes = None\<rparr>), (''name'', \<lparr>scopes = Some [''public'']\<rparr>)]"
  have k: "set [''name''] \<subseteq> dom [''name'' \<mapsto> [''public'']]" by simp
  have d: "distinct (map fst ?fm)" by simp
  have m: "(''id'', \<lparr>scopes = None\<rparr>) \<in> set ?fm" by simp
  have p: "parse ''public'' = Inr (Some (ScopeLiteral ''public''))" by code_simp
  note t = scopeInfo_establishes_precondition[of "[''name'']" "[''name'' \<mapsto> [''public'']]"
      "ScopeLiteral ''public''" ?fm "''id''" "\<lparr>scopes = None\<rparr>" "''public''"]
  have 1: "\<exists>r. evaluate (ScopeLiteral ''public'') [''name'' \<mapsto> [''public'']] [''name''] = Inr r"
    using t k by blast
  have 2: "scopeInfo ?fm ''id'' = Some (scopes_or_empty \<lparr>scopes = None\<rparr>)"
    using t d m by blast
  have 3: "\<exists>r. view_selected ?fm ''public'' = Inr r"
    using t p by blast
  have e: "scopes_or_empty \<lparr>scopes = None\<rparr> = []" by (simp add: scopes_or_empty_def)
  show ?thesis using k d m p 1 2 3 unfolding e by blast
qed

end
